theory Spec2Isabelle
  imports Main "HOL-Library.Word" "HOL-Library.Multiset"
begin

section \<open>The neighbour table of example-broadcast.c\<close>

text \<open>
  The program keeps the neighbours it has heard in a Contiki list whose nodes are
  allocated from a Contiki memory pool (MEMB) of \<open>MAX_NEIGHBORS\<close> blocks.  A pointer
  to a block is the index of the block in the pool; \<open>NULL\<close> is \<open>None\<close>.  The
  \<open>next\<close> links of the intrusive list are represented by the sequence of node
  pointers they chain together, from the head to the tail.
\<close>

subsection \<open>Data\<close>

type_synonym ptr = nat

text \<open>
  \<open>struct neighbor\<close> without its \<open>next\<close> link.  The declaration of
  \<open>linkaddr_t\<close> is not part of the file, so the address type is a parameter; the
  program only copies addresses (\<open>linkaddr_copy\<close>) and compares them
  (\<open>linkaddr_cmp\<close>).
\<close>

record 'a neighbor =
  addr :: 'a
  last_rssi :: "16 word"

text \<open>
  The global state: the pool \<open>neighbors_memb\<close> (the usage count of each block and
  the blocks themselves) and the list \<open>neighbors_list\<close>.
\<close>

record 'a state =
  memb_count :: "nat list"
  memb_mem :: "ptr \<Rightarrow> 'a neighbor"
  neighbors_list :: "ptr list"

definition MAX_NEIGHBORS :: nat where
  "MAX_NEIGHBORS = 5"

text \<open>
  Static storage: every block of a pool of \<open>num\<close> blocks is unused and the list is
  empty.  The contents \<open>mem0\<close> of the blocks are never read before they are
  written, so they are left arbitrary.
\<close>

definition init_state :: "nat \<Rightarrow> (ptr \<Rightarrow> 'a neighbor) \<Rightarrow> 'a state" where
  "init_state num mem0 = \<lparr>memb_count = replicate num 0, memb_mem = mem0, neighbors_list = []\<rparr>"

datatype error = NullDereference

text \<open>The lines the program prints.\<close>

datatype 'a msg =
    Received 'a "16 word"
  | DebugRemove 'a "16 word"
  | DebugReject
  | DumpHeader
  | DumpRow 'a "16 word"

subsection \<open>The list library\<close>

text \<open>
  Modelled from the spec: the Contiki list library (\<open>list_head\<close>, \<open>list_tail\<close>,
  \<open>list_item_next\<close>, \<open>list_remove\<close>, \<open>list_push\<close>, \<open>list_add\<close>) is used by
  the file but defined outside it.  The spec calls it an intrusive list with manual
  pointer splicing, on which the sort removes a node and pushes it to the front, and
  whose tail is the weakest record.  \<open>list_head\<close> is the first node or \<open>NULL\<close>.
\<close>

definition list_head :: "ptr list \<Rightarrow> ptr option" where
  "list_head l = (case l of [] \<Rightarrow> None | p # _ \<Rightarrow> Some p)"

text \<open>
  Modelled from the spec: \<open>list_tail\<close> of the list library, the last node of the
  list or \<open>NULL\<close> when the list is empty.
\<close>

definition list_tail :: "ptr list \<Rightarrow> ptr option" where
  "list_tail l = (case l of [] \<Rightarrow> None | _ # _ \<Rightarrow> Some (last l))"

text \<open>
  Modelled from the spec: \<open>list_item_next\<close> of the list library, the \<open>next\<close> link
  of a node: the node that follows it on the list, \<open>NULL\<close> for the last node and
  for \<open>NULL\<close> itself.
\<close>

fun item_next :: "ptr list \<Rightarrow> ptr \<Rightarrow> ptr option" where
  "item_next [] p = None"
| "item_next [q] p = None"
| "item_next (q # r # l) p = (if q = p then Some r else item_next (r # l) p)"

definition list_item_next :: "ptr list \<Rightarrow> ptr option \<Rightarrow> ptr option" where
  "list_item_next l item = (case item of None \<Rightarrow> None | Some p \<Rightarrow> item_next l p)"

text \<open>
  Modelled from the spec: \<open>list_remove\<close> of the list library unlinks a node from
  the list and does nothing when the node is not on it.
\<close>

definition list_remove :: "ptr list \<Rightarrow> ptr \<Rightarrow> ptr list" where
  "list_remove l p = remove1 p l"

text \<open>
  Modelled from the spec: \<open>list_push\<close> of the list library puts a node at the
  front of the list, after removing it should it be on the list already.
\<close>

definition list_push :: "ptr list \<Rightarrow> ptr \<Rightarrow> ptr list" where
  "list_push l p = p # list_remove l p"

text \<open>
  Modelled from the spec: \<open>list_add\<close> of the list library puts a node at the end
  of the list, after removing it should it be on the list already.
\<close>

definition list_add :: "ptr list \<Rightarrow> ptr \<Rightarrow> ptr list" where
  "list_add l p = list_remove l p @ [p]"

subsection \<open>The memory pool\<close>

text \<open>
  Modelled from the spec: \<open>memb_alloc\<close> and \<open>memb_free\<close> of the Contiki memory
  pool library are used by the file but defined outside it.  The spec calls the pool
  a fixed number of pre-reserved slots with explicit alloc and free.  \<open>memb_alloc\<close>
  scans the blocks from the first, takes the first unused block and marks it used;
  it returns \<open>NULL\<close> when every block is in use.
\<close>

fun memb_scan :: "nat list \<Rightarrow> nat \<Rightarrow> ptr option" where
  "memb_scan [] i = None"
| "memb_scan (c # cs) i = (if c = 0 then Some i else memb_scan cs (Suc i))"

definition memb_alloc :: "'a state \<Rightarrow> ptr option \<times> 'a state" where
  "memb_alloc s =
     (case memb_scan (memb_count s) 0 of
        None \<Rightarrow> (None, s)
      | Some i \<Rightarrow> (Some i, s\<lparr>memb_count := (memb_count s)[i := Suc (memb_count s ! i)]\<rparr>))"

text \<open>
  Modelled from the spec: \<open>memb_free\<close> gives a block back to the pool: the usage
  count of a block of the pool that is in use is decremented.
\<close>

definition memb_free :: "'a state \<Rightarrow> ptr \<Rightarrow> 'a state" where
  "memb_free s p =
     (if p < length (memb_count s) \<and> 0 < memb_count s ! p
      then s\<lparr>memb_count := (memb_count s)[p := memb_count s ! p - 1]\<rparr>
      else s)"

subsection \<open>sort_list_based_on_rssi\<close>

text \<open>
  The \<open>while\<close> loop of \<open>sort_list_based_on_rssi\<close>, with the variables \<open>prev\<close>
  and \<open>next\<close>.  The flag \<open>swapped\<close> is 0 at the start of every iteration, so the
  second \<open>if\<close> takes the branch of the first.  The loop may run forever on a list
  that is not well formed; that is the value \<open>None\<close>.
\<close>

partial_function (option) sort_loop ::
  "(ptr \<Rightarrow> 'a neighbor) \<Rightarrow> ptr list \<Rightarrow> ptr option \<Rightarrow> ptr option \<Rightarrow> (error + ptr list) option"
where
  "sort_loop mem l prev nxt =
     (case nxt of
        None \<Rightarrow> Some (Inr l)
      | Some n \<Rightarrow>
          (case prev of
             None \<Rightarrow> Some (Inl NullDereference)
           | Some p \<Rightarrow>
               if last_rssi (mem p) < last_rssi (mem n)
               then sort_loop mem (list_push (list_remove l n) n)
                      (list_head (list_push (list_remove l n) n))
                      (list_item_next (list_push (list_remove l n) n)
                         (list_head (list_push (list_remove l n) n)))
               else sort_loop mem l (Some n) (list_item_next l (Some n))))"

declare sort_loop.simps [code]

definition sort_list_based_on_rssi :: "'a state \<Rightarrow> (error + 'a state) option" where
  "sort_list_based_on_rssi s =
     (case list_head (neighbors_list s) of
        None \<Rightarrow> Some (Inr s)
      | Some prev \<Rightarrow>
          (case sort_loop (memb_mem s) (neighbors_list s) (Some prev)
                  (list_item_next (neighbors_list s) (Some prev)) of
             None \<Rightarrow> None
           | Some (Inl e) \<Rightarrow> Some (Inl e)
           | Some (Inr l) \<Rightarrow> Some (Inr (s\<lparr>neighbors_list := l\<rparr>))))"

subsection \<open>broadcast_recv\<close>

text \<open>
  The \<open>for\<close> loop that looks the sender up: it walks the list from the head along
  the \<open>next\<close> links and stops at the first node whose address is the sender's
  (\<open>linkaddr_cmp\<close>); it ends with \<open>NULL\<close> when there is none.
\<close>

fun find_neighbor :: "(ptr \<Rightarrow> 'a neighbor) \<Rightarrow> ptr list \<Rightarrow> 'a \<Rightarrow> ptr option" where
  "find_neighbor mem [] sender = None"
| "find_neighbor mem (n # l) sender =
     (if addr (mem n) = sender then Some n else find_neighbor mem l sender)"

text \<open>
  \<open>linkaddr_copy(&n->addr, from); list_add(neighbors_list, n);\<close> for a node that
  was just allocated.
\<close>

definition add_neighbor :: "'a state \<Rightarrow> ptr \<Rightarrow> 'a \<Rightarrow> 'a state" where
  "add_neighbor s n sender =
     s\<lparr>memb_mem := (memb_mem s)(n := (memb_mem s n)\<lparr>addr := sender\<rparr>),
       neighbors_list := list_add (neighbors_list s) n\<rparr>"

text \<open>The lines of the dump at the end of \<open>broadcast_recv\<close>.\<close>

definition dump :: "'a state \<Rightarrow> 'a msg list" where
  "dump s =
     DumpHeader #
     map (\<lambda>p. DumpRow (addr (memb_mem s p)) (last_rssi (memb_mem s p))) (neighbors_list s)"

text \<open>
  The end of \<open>broadcast_recv\<close>, common to the known and the new neighbour:
  \<open>n->last_rssi = new_mote_rssi\<close>, the sort and the dump.
\<close>

definition fill_sort_dump ::
  "'a msg list \<Rightarrow> 'a state \<Rightarrow> ptr \<Rightarrow> 16 word \<Rightarrow> (error + 'a msg list \<times> 'a state) option"
where
  "fill_sort_dump out s n new_mote_rssi =
     (case sort_list_based_on_rssi
             (s\<lparr>memb_mem := (memb_mem s)(n := (memb_mem s n)\<lparr>last_rssi := new_mote_rssi\<rparr>)\<rparr>) of
        None \<Rightarrow> None
      | Some (Inl e) \<Rightarrow> Some (Inl e)
      | Some (Inr s') \<Rightarrow> Some (Inr (out @ dump s', s')))"

text \<open>
  \<open>broadcast_recv\<close> for a packet from \<open>sender\<close> whose RSSI attribute is
  \<open>new_mote_rssi\<close>.  The result is the lines printed and the new state, or the
  error of reading or writing through \<open>NULL\<close>: \<open>lowest_rssi_neighbor->last_rssi\<close>
  when \<open>list_tail\<close> returns \<open>NULL\<close>, and \<open>n->addr\<close> when the second
  \<open>memb_alloc\<close> returns \<open>NULL\<close>.
\<close>

definition broadcast_recv ::
  "'a state \<Rightarrow> 'a \<Rightarrow> 16 word \<Rightarrow> (error + 'a msg list \<times> 'a state) option"
where
  "broadcast_recv s sender new_mote_rssi =
     (case find_neighbor (memb_mem s) (neighbors_list s) sender of
        Some n \<Rightarrow> fill_sort_dump [Received sender new_mote_rssi] s n new_mote_rssi
      | None \<Rightarrow>
          (case memb_alloc s of
             (Some n, s1) \<Rightarrow>
               fill_sort_dump [Received sender new_mote_rssi] (add_neighbor s1 n sender)
                 n new_mote_rssi
           | (None, s1) \<Rightarrow>
               (case list_tail (neighbors_list s1) of
                  None \<Rightarrow> Some (Inl NullDereference)
                | Some lowest_rssi_neighbor \<Rightarrow>
                    if last_rssi (memb_mem s1 lowest_rssi_neighbor) < new_mote_rssi
                    then
                      (case memb_alloc
                              (memb_free
                                 (s1\<lparr>neighbors_list :=
                                       list_remove (neighbors_list s1) lowest_rssi_neighbor\<rparr>)
                                 lowest_rssi_neighbor) of
                         (None, s2) \<Rightarrow> Some (Inl NullDereference)
                       | (Some n, s2) \<Rightarrow>
                           fill_sort_dump
                             [Received sender new_mote_rssi,
                              DebugRemove (addr (memb_mem s1 lowest_rssi_neighbor))
                                (last_rssi (memb_mem s1 lowest_rssi_neighbor))]
                             (add_neighbor s2 n sender) n new_mote_rssi)
                    else Some (Inr ([Received sender new_mote_rssi, DebugReject], s1)))))"

text \<open>
  The receive callback run on a sequence of packets, each given by its sender and its
  RSSI; it stops at the first call that does not return normally.
\<close>

fun observe_all :: "'a state \<Rightarrow> ('a \<times> 16 word) list \<Rightarrow> (error + 'a state) option" where
  "observe_all s [] = Some (Inr s)"
| "observe_all s (ob # obs) =
     (case broadcast_recv s (fst ob) (snd ob) of
        None \<Rightarrow> None
      | Some (Inl e) \<Rightarrow> Some (Inl e)
      | Some (Inr r) \<Rightarrow> observe_all (snd r) obs)"

subsection \<open>The table and its invariants\<close>

text \<open>The table as it is reported: address and signal quality, from head to tail.\<close>

definition snapshot :: "'a state \<Rightarrow> ('a \<times> 16 word) list" where
  "snapshot s = map (\<lambda>p. (addr (memb_mem s p), last_rssi (memb_mem s p))) (neighbors_list s)"

definition rssi :: "(ptr \<Rightarrow> 'a neighbor) \<Rightarrow> ptr \<Rightarrow> 16 word" where
  "rssi mem p = last_rssi (mem p)"

definition sorted_desc :: "16 word list \<Rightarrow> bool" where
  "sorted_desc qs = sorted_wrt (\<lambda>a b. b \<le> a) qs"

text \<open>
  The pool and the list agree: the pool has \<open>num\<close> blocks, no node is twice on the
  list, and the blocks in use are the nodes of the list, each with usage count 1.
\<close>

definition pool_inv :: "nat \<Rightarrow> 'a state \<Rightarrow> bool" where
  "pool_inv num s \<longleftrightarrow>
     length (memb_count s) = num \<and> distinct (neighbors_list s) \<and>
     list_all (\<lambda>p. p < num) (neighbors_list s) \<and>
     list_all (\<lambda>i. memb_count s ! i = (if i \<in> set (neighbors_list s) then 1 else 0)) [0..<num]"

definition table_inv :: "nat \<Rightarrow> 'a state \<Rightarrow> bool" where
  "table_inv num s \<longleftrightarrow>
     pool_inv num s \<and> distinct (map fst (snapshot s)) \<and> sorted_desc (map snd (snapshot s))"

text \<open>The entries of the table with signal quality \<open>q\<close>, in table order.\<close>

definition ties :: "16 word \<Rightarrow> 'a state \<Rightarrow> ('a \<times> 16 word) list" where
  "ties q s = filter (\<lambda>r. snd r = q) (snapshot s)"

subsection \<open>Termination order of the sort\<close>

definition nxt_at :: "ptr list \<Rightarrow> nat \<Rightarrow> ptr option" where
  "nxt_at l i = (if Suc i < length l then Some (l ! Suc i) else None)"

definition key :: "(ptr \<Rightarrow> 'a neighbor) \<Rightarrow> ptr \<Rightarrow> nat" where
  "key mem p = unat (last_rssi (mem p))"

text \<open>
  Pushing a node to the front lowers the signal quality at the position it leaves and
  changes nothing behind it: the list read from the tail gets smaller in the
  lexicographic order.  Otherwise the scan moves one node closer to the tail.
\<close>

definition sort_rel ::
  "(ptr \<Rightarrow> 'a neighbor) \<Rightarrow> ((ptr list \<times> nat) \<times> (ptr list \<times> nat)) set"
where
  "sort_rel mem =
     inv_image (lenlex less_than <*lex*> less_than)
       (\<lambda>(l, i). (rev (map (key mem) l), length l - i))"

subsection \<open>Example states\<close>

text \<open>Static storage is zero.\<close>

definition zero_mem :: "ptr \<Rightarrow> nat neighbor" where
  "zero_mem p = \<lparr>addr = 0, last_rssi = 0\<rparr>"

text \<open>A table of three neighbours, the last two with the same signal quality.\<close>

definition tie_state :: "nat state" where
  "tie_state =
     \<lparr>memb_count = [1, 1, 1],
      memb_mem = zero_mem
        (0 := \<lparr>addr = 1, last_rssi = 1\<rparr>,
         Suc 0 := \<lparr>addr = 2, last_rssi = 2\<rparr>,
         Suc (Suc 0) := \<lparr>addr = 3, last_rssi = 2\<rparr>),
      neighbors_list = [0, Suc 0, Suc (Suc 0)]\<rparr>"

text \<open>
  A full table of capacity 2: the neighbour 2 with signal quality 20 in block 1, then
  the neighbour 1 with signal quality 10 in block 0.
\<close>

definition full_state :: "nat state" where
  "full_state =
     \<lparr>memb_count = [1, 1],
      memb_mem = zero_mem
        (0 := \<lparr>addr = 1, last_rssi = 10\<rparr>,
         Suc 0 := \<lparr>addr = 2, last_rssi = 20\<rparr>),
      neighbors_list = [Suc 0, 0]\<rparr>"

section \<open>The sort\<close>

subsection \<open>The list as a sequence of distinct nodes\<close>

lemma item_next_distinct:
  "distinct l \<Longrightarrow> i < length l \<Longrightarrow> item_next l (l ! i) = nxt_at l i"
proof (induction l "l ! i" arbitrary: i rule: item_next.induct)
  case 1
  then show ?case by simp
next
  case (2 q)
  then show ?case by (simp add: nxt_at_def)
next
  case (3 q r l)
  show ?case
  proof (cases i)
    case 0
    then show ?thesis by (simp add: nxt_at_def)
  next
    case (Suc j)
    with 3 have "q \<noteq> (q # r # l) ! i" by (metis distinct.simps(2) nth_Cons_Suc nth_mem Suc_less_eq length_Cons)
    with 3 Suc show ?thesis by (auto simp: nxt_at_def)
  qed
qed

lemma remove1_nth_distinct:
  "distinct l \<Longrightarrow> j < length l \<Longrightarrow> remove1 (l ! j) l = take j l @ drop (Suc j) l"
proof (induction l arbitrary: j)
  case Nil
  then show ?case by simp
next
  case (Cons a l)
  then show ?case by (cases j) auto
qed

subsection \<open>The loop terminates with the list sorted\<close>

lemma wf_sort_rel: "wf (sort_rel mem)"
  unfolding sort_rel_def by (intro wf_inv_image wf_lex_prod wf_lenlex wf_less_than)

lemma push_decreases:
  assumes "Suc i < length l" and "key mem (l ! i) < key mem (l ! Suc i)"
  shows "(rev (map (key mem) (l ! Suc i # take (Suc i) l @ drop (Suc (Suc i)) l)),
          rev (map (key mem) l)) \<in> lenlex less_than"
proof -
  define pre where "pre = take i l"
  define post where "post = drop (Suc (Suc i)) l"
  have l: "l = pre @ l ! i # l ! Suc i # post"
    using assms(1) unfolding pre_def post_def
    by (metis Cons_nth_drop_Suc Suc_lessD append_take_drop_id)
  have t: "take (Suc i) l = pre @ [l ! i]"
    using assms(1) unfolding pre_def by (simp add: take_Suc_conv_app_nth)
  have a: "rev (map (key mem) (l ! Suc i # take (Suc i) l @ post)) =
        rev (map (key mem) post) @ (key mem (l ! i) # rev (map (key mem) pre) @ [key mem (l ! Suc i)])"
    by (simp add: t)
  have b: "rev (map (key mem) l) =
        rev (map (key mem) post) @ (key mem (l ! Suc i) # key mem (l ! i) # rev (map (key mem) pre))"
    by (subst l) simp
  have "(key mem (l ! i) # rev (map (key mem) pre) @ [key mem (l ! Suc i)],
         key mem (l ! Suc i) # key mem (l ! i) # rev (map (key mem) pre)) \<in> lenlex less_than"
    using assms(2) by (simp add: Cons_lenlex_iff)
  then show ?thesis
    unfolding a b post_def[symmetric] by (simp add: irrefl_def)
qed


lemma sorted_desc_take_Suc:
  assumes "Suc i < length l" and "sorted_desc (map (rssi mem) (take (Suc i) l))"
    and "rssi mem (l ! Suc i) \<le> rssi mem (l ! i)"
  shows "sorted_desc (map (rssi mem) (take (Suc (Suc i)) l))"
proof -
  have t: "take (Suc (Suc i)) l = take (Suc i) l @ [l ! Suc i]"
    using assms(1) by (simp add: take_Suc_conv_app_nth)
  have "rssi mem (l ! Suc i) \<le> rssi mem x" if "x \<in> set (take (Suc i) l)" for x
  proof -
    from that obtain k where k: "k < Suc i" "x = l ! k"
      using assms(1) by (auto simp: in_set_conv_nth)
    have "rssi mem (l ! i) \<le> rssi mem x"
    proof (cases "k = i")
      case True
      with k show ?thesis by simp
    next
      case False
      with k have "k < i" by simp
      with assms(1,2) have "rssi mem (take (Suc i) l ! i) \<le> rssi mem (take (Suc i) l ! k)"
        unfolding sorted_desc_def sorted_wrt_map
        by (intro sorted_wrt_nth_less) auto
      with k \<open>k < i\<close> show ?thesis by simp
    qed
    with assms(3) show ?thesis by simp
  qed
  with assms(2) show ?thesis
    unfolding t sorted_desc_def by (simp add: sorted_wrt_append)
qed

lemma sorted_desc_adjacent:
  assumes "sorted_desc (map (rssi mem) l)" and "Suc i < length l"
  shows "rssi mem (l ! Suc i) \<le> rssi mem (l ! i)"
  using assms unfolding sorted_desc_def sorted_wrt_map
  by (intro sorted_wrt_nth_less [where P = "\<lambda>x y. rssi mem y \<le> rssi mem x"]) auto

lemma sort_loop_correct:
  assumes "distinct l" and "i < length l"
    and "sorted_desc (map (rssi mem) (take (Suc i) l))"
  shows "\<exists>l'. sort_loop mem l (Some (l ! i)) (nxt_at l i) = Some (Inr l')
            \<and> mset l' = mset l \<and> sorted_desc (map (rssi mem) l')
            \<and> (sorted_desc (map (rssi mem) l) \<longrightarrow> l' = l)"
  using wf_sort_rel [of mem] assms
proof (induction "(l, i)" arbitrary: l i rule: wf_induct_rule)
  case less
  show ?case
  proof (cases "Suc i < length l")
    case False
    with less.prems have "take (Suc i) l = l" by simp
    with less.prems False show ?thesis
      by (subst sort_loop.simps) (simp add: nxt_at_def)
  next
    case True
    let ?p = "l ! i" and ?n = "l ! Suc i"
    show ?thesis
    proof (cases "last_rssi (mem ?p) < last_rssi (mem ?n)")
      case swap: True
      let ?l' = "?n # take (Suc i) l @ drop (Suc (Suc i)) l"
      have rem: "remove1 ?n l = take (Suc i) l @ drop (Suc (Suc i)) l"
        using less.prems(1) True by (simp add: remove1_nth_distinct)
      have mset': "mset ?l' = mset l"
        using True unfolding rem [symmetric] by simp
      have dist': "distinct ?l'"
        using less.prems(1) mset' by (metis mset_eq_imp_distinct_iff)
      have notin: "?n \<notin> set (remove1 ?n l)"
        using less.prems(1) by simp
      have push: "list_push (list_remove l ?n) ?n = ?l'"
        using notin by (simp add: list_push_def list_remove_def remove1_idem rem)
      have rel: "((?l', 0), (l, i)) \<in> sort_rel mem"
        using push_decreases [of i l mem] True swap
        by (simp add: sort_rel_def key_def word_less_nat_alt)
      have "\<exists>l''. sort_loop mem ?l' (Some (?l' ! 0)) (nxt_at ?l' 0) = Some (Inr l'')
            \<and> mset l'' = mset ?l' \<and> sorted_desc (map (rssi mem) l'')
            \<and> (sorted_desc (map (rssi mem) ?l') \<longrightarrow> l'' = ?l')"
        by (rule less.hyps [OF rel dist']) (simp_all add: sorted_desc_def)
      then obtain l'' where l'': "sort_loop mem ?l' (Some ?n) (nxt_at ?l' 0) = Some (Inr l'')"
        "mset l'' = mset ?l'" "sorted_desc (map (rssi mem) l'')"
        by auto
      have nx: "list_item_next ?l' (Some ?n) = nxt_at ?l' 0"
        using item_next_distinct [OF dist', of 0] by (simp add: list_item_next_def)
      have step: "sort_loop mem l (Some ?p) (nxt_at l i) = Some (Inr l'')"
        using True swap l''(1) nx
        by (subst sort_loop.simps) (simp add: nxt_at_def push list_head_def)
      have "\<not> sorted_desc (map (rssi mem) l)"
        using sorted_desc_adjacent [of mem l i] True swap by (auto simp: rssi_def)
      with step l'' mset' show ?thesis by simp
    next
      case False
      have rel: "((l, Suc i), (l, i)) \<in> sort_rel mem"
        using True by (auto simp: sort_rel_def)
      have srt: "sorted_desc (map (rssi mem) (take (Suc (Suc i)) l))"
        using sorted_desc_take_Suc [OF True less.prems(3)] False by (simp add: rssi_def)
      have "\<exists>l'. sort_loop mem l (Some (l ! Suc i)) (nxt_at l (Suc i)) = Some (Inr l')
            \<and> mset l' = mset l \<and> sorted_desc (map (rssi mem) l')
            \<and> (sorted_desc (map (rssi mem) l) \<longrightarrow> l' = l)"
        by (rule less.hyps [OF rel less.prems(1) True srt])
      moreover have "list_item_next l (Some ?n) = nxt_at l (Suc i)"
        using item_next_distinct [OF less.prems(1) True] by (simp add: list_item_next_def)
      ultimately show ?thesis
        using True False
        by (subst sort_loop.simps) (simp add: nxt_at_def)
    qed
  qed
qed

lemma sort_list_based_on_rssi_correct:
  assumes "distinct (neighbors_list s)"
  shows "\<exists>l'. sort_list_based_on_rssi s = Some (Inr (s\<lparr>neighbors_list := l'\<rparr>))
            \<and> mset l' = mset (neighbors_list s)
            \<and> sorted_desc (map (rssi (memb_mem s)) l')
            \<and> (sorted_desc (map (rssi (memb_mem s)) (neighbors_list s)) \<longrightarrow> l' = neighbors_list s)"
proof (cases "neighbors_list s")
  case Nil
  then show ?thesis
    by (simp add: sort_list_based_on_rssi_def list_head_def sorted_desc_def)
next
  case (Cons p l)
  let ?l = "neighbors_list s"
  have "\<exists>l'. sort_loop (memb_mem s) ?l (Some (?l ! 0)) (nxt_at ?l 0) = Some (Inr l')
            \<and> mset l' = mset ?l \<and> sorted_desc (map (rssi (memb_mem s)) l')
            \<and> (sorted_desc (map (rssi (memb_mem s)) ?l) \<longrightarrow> l' = ?l)"
    using assms Cons by (intro sort_loop_correct) (simp_all add: sorted_desc_def)
  then obtain l' where l': "sort_loop (memb_mem s) ?l (Some (?l ! 0)) (nxt_at ?l 0) = Some (Inr l')"
    "mset l' = mset ?l" "sorted_desc (map (rssi (memb_mem s)) l')"
    "sorted_desc (map (rssi (memb_mem s)) ?l) \<longrightarrow> l' = ?l"
    by blast
  have "list_item_next ?l (Some (?l ! 0)) = nxt_at ?l 0"
    using item_next_distinct [OF assms, of 0] Cons by (simp add: list_item_next_def)
  moreover have "list_head ?l = Some (?l ! 0)"
    using Cons by (simp add: list_head_def)
  ultimately have "sort_list_based_on_rssi s = Some (Inr (s\<lparr>neighbors_list := l'\<rparr>))"
    using l'(1) by (simp add: sort_list_based_on_rssi_def)
  with l' show ?thesis by blast
qed

section \<open>The pool and the list\<close>

lemma pool_inv_iff:
  "pool_inv num s \<longleftrightarrow>
     length (memb_count s) = num \<and> distinct (neighbors_list s) \<and>
     (\<forall>p \<in> set (neighbors_list s). p < num) \<and>
     (\<forall>i < num. memb_count s ! i = (if i \<in> set (neighbors_list s) then 1 else 0))"
  by (auto simp: pool_inv_def list_all_iff)

lemma memb_scan_None: "memb_scan cnt i = None \<longleftrightarrow> (\<forall>c \<in> set cnt. c \<noteq> 0)"
  by (induction cnt arbitrary: i) auto

lemma memb_scan_Some:
  "memb_scan cnt i = Some j \<Longrightarrow> i \<le> j \<and> j - i < length cnt \<and> cnt ! (j - i) = 0"
proof (induction cnt arbitrary: i)
  case Nil
  then show ?case by simp
next
  case (Cons c cnt)
  show ?case
  proof (cases "c = 0")
    case True
    with Cons.prems show ?thesis by simp
  next
    case False
    with Cons.prems have "memb_scan cnt (Suc i) = Some j" by simp
    from Cons.IH [OF this] show ?thesis
      by (auto simp: Suc_diff_le nth_Cons')
  qed
qed

lemma pool_full:
  assumes "pool_inv num s"
  shows "length (neighbors_list s) = num \<longleftrightarrow> (\<forall>i < num. i \<in> set (neighbors_list s))"
proof -
  let ?l = "neighbors_list s"
  from assms have d: "distinct ?l" and sub: "set ?l \<subseteq> {..<num}"
    by (auto simp: pool_inv_iff)
  show ?thesis
  proof
    assume "length ?l = num"
    with d have "card (set ?l) = card {..<num}" by (simp add: distinct_card)
    with sub have "set ?l = {..<num}" by (intro card_subset_eq) auto
    then show "\<forall>i < num. i \<in> set ?l" by auto
  next
    assume "\<forall>i < num. i \<in> set ?l"
    with sub have "set ?l = {..<num}" by auto
    then have "card (set ?l) = num" by simp
    with d show "length ?l = num" by (simp add: distinct_card)
  qed
qed

lemma memb_alloc_None:
  assumes "pool_inv num s"
  shows "fst (memb_alloc s) = None \<longleftrightarrow> length (neighbors_list s) = num"
proof -
  have "fst (memb_alloc s) = None \<longleftrightarrow> memb_scan (memb_count s) 0 = None"
    by (simp add: memb_alloc_def split: option.splits)
  also have "\<dots> \<longleftrightarrow> (\<forall>c \<in> set (memb_count s). c \<noteq> 0)"
    by (rule memb_scan_None)
  also have "\<dots> \<longleftrightarrow> (\<forall>i < num. memb_count s ! i \<noteq> 0)"
    using assms by (auto simp: pool_inv_iff all_set_conv_all_nth)
  also have "\<dots> \<longleftrightarrow> (\<forall>i < num. i \<in> set (neighbors_list s))"
    using assms by (auto simp: pool_inv_iff)
  finally show ?thesis
    using pool_full [OF assms] by simp
qed

lemma memb_alloc_None_state: "fst (memb_alloc s) = None \<Longrightarrow> memb_alloc s = (None, s)"
  by (simp add: memb_alloc_def split: option.splits)

lemma memb_alloc_Some:
  assumes "pool_inv num s" and "memb_alloc s = (Some n, s1)"
  shows "n < num \<and> n \<notin> set (neighbors_list s) \<and> s1 = s\<lparr>memb_count := (memb_count s)[n := 1]\<rparr>"
proof -
  from assms(2) have sc: "memb_scan (memb_count s) 0 = Some n"
    and s1: "s1 = s\<lparr>memb_count := (memb_count s)[n := Suc (memb_count s ! n)]\<rparr>"
    by (auto simp: memb_alloc_def split: option.splits)
  from memb_scan_Some [OF sc] have n: "n < length (memb_count s)" "memb_count s ! n = 0"
    by auto
  with assms(1) have "n < num" "n \<notin> set (neighbors_list s)"
    by (auto simp: pool_inv_iff split: if_splits)
  with s1 n show ?thesis by simp
qed

lemma pool_inv_add:
  assumes "pool_inv num s" and "memb_alloc s = (Some n, s1)"
  shows "pool_inv num (add_neighbor s1 n sender)"
    and "neighbors_list (add_neighbor s1 n sender) = neighbors_list s @ [n]"
    and "memb_mem (add_neighbor s1 n sender) = (memb_mem s)(n := (memb_mem s n)\<lparr>addr := sender\<rparr>)"
    and "n \<notin> set (neighbors_list s)"
proof -
  from memb_alloc_Some [OF assms] have n: "n < num" "n \<notin> set (neighbors_list s)"
    and s1: "s1 = s\<lparr>memb_count := (memb_count s)[n := 1]\<rparr>"
    by auto
  show l: "neighbors_list (add_neighbor s1 n sender) = neighbors_list s @ [n]"
    using n by (simp add: add_neighbor_def s1 list_add_def list_remove_def remove1_idem)
  show "memb_mem (add_neighbor s1 n sender) = (memb_mem s)(n := (memb_mem s n)\<lparr>addr := sender\<rparr>)"
    by (simp add: add_neighbor_def s1)
  show "n \<notin> set (neighbors_list s)" by fact
  have c: "memb_count (add_neighbor s1 n sender) = (memb_count s)[n := 1]"
    by (simp add: add_neighbor_def s1)
  show "pool_inv num (add_neighbor s1 n sender)"
    unfolding pool_inv_iff l c using assms(1) n
    by (auto simp: pool_inv_iff nth_list_update)
qed

lemma pool_length_le:
  assumes "pool_inv num s"
  shows "length (neighbors_list s) \<le> num"
proof -
  from assms have d: "distinct (neighbors_list s)" and sub: "set (neighbors_list s) \<subseteq> {..<num}"
    by (auto simp: pool_inv_iff)
  from sub have "card (set (neighbors_list s)) \<le> card {..<num}"
    by (intro card_mono) auto
  with d show ?thesis by (simp add: distinct_card)
qed

lemma pool_inv_evict:
  assumes "pool_inv num s" and "neighbors_list s \<noteq> []"
  defines "t \<equiv> last (neighbors_list s)"
  defines "s2 \<equiv> memb_free (s\<lparr>neighbors_list := list_remove (neighbors_list s) t\<rparr>) t"
  shows "pool_inv num s2" and "neighbors_list s2 = butlast (neighbors_list s)"
    and "memb_mem s2 = memb_mem s" and "length (neighbors_list s2) < num"
proof -
  define xs where "xs = butlast (neighbors_list s)"
  have l: "neighbors_list s = xs @ [t]"
    using assms(2) by (simp add: t_def xs_def)
  from assms(1) have d: "distinct (xs @ [t])" by (simp add: pool_inv_iff l)
  then have tn: "t \<notin> set xs" and dx: "distinct xs" by auto
  have r: "remove1 t (neighbors_list s) = xs"
    using tn by (simp add: l remove1_append)
  have t: "t < num" "memb_count s ! t = 1" "length (memb_count s) = num"
    using assms(1) by (auto simp: pool_inv_iff l)
  have s2: "s2 = s\<lparr>neighbors_list := xs, memb_count := (memb_count s)[t := 0]\<rparr>"
    using t by (simp add: s2_def memb_free_def list_remove_def r)
  show l2: "neighbors_list s2 = butlast (neighbors_list s)" by (simp add: s2 xs_def)
  show "memb_mem s2 = memb_mem s" by (simp add: s2)
  show p: "pool_inv num s2"
    using assms(1) tn dx unfolding pool_inv_iff s2 l
    by (auto simp: nth_list_update)
  from pool_length_le [OF assms(1)] show "length (neighbors_list s2) < num"
    by (simp add: s2 l)
qed

section \<open>The branches of broadcast_recv\<close>

lemma find_neighbor_None:
  "find_neighbor mem l a = None \<longleftrightarrow> (\<forall>p \<in> set l. addr (mem p) \<noteq> a)"
  by (induction l) auto

lemma find_neighbor_Some:
  "find_neighbor mem l a = Some n \<Longrightarrow> n \<in> set l \<and> addr (mem n) = a"
  by (induction l) (auto split: if_splits)

lemma snapshot_snd: "map snd (snapshot s) = map (rssi (memb_mem s)) (neighbors_list s)"
  by (simp add: snapshot_def rssi_def)

lemma snapshot_fst: "map fst (snapshot s) = map (\<lambda>p. addr (memb_mem s p)) (neighbors_list s)"
  by (simp add: snapshot_def)

lemma neighbor_update_all:
  "(r :: 'a neighbor)\<lparr>addr := a, last_rssi := q\<rparr> = \<lparr>addr = a, last_rssi = q\<rparr>"
  by (cases r) simp

lemma fill_sort_dump_correct:
  fixes s :: "'a state" and n :: ptr and q :: "16 word"
  assumes "distinct (neighbors_list s)"
  defines "M \<equiv> (memb_mem s)(n := (memb_mem s n)\<lparr>last_rssi := q\<rparr>)"
  shows "\<exists>l'. fill_sort_dump out s n q =
                 Some (Inr (out @ dump (s\<lparr>memb_mem := M, neighbors_list := l'\<rparr>),
                            s\<lparr>memb_mem := M, neighbors_list := l'\<rparr>))
            \<and> mset l' = mset (neighbors_list s)
            \<and> sorted_desc (map (rssi M) l')"
proof -
  let ?s = "s\<lparr>memb_mem := M\<rparr>"
  have "distinct (neighbors_list ?s)" using assms(1) by simp
  from sort_list_based_on_rssi_correct [OF this]
  obtain l' where "sort_list_based_on_rssi ?s = Some (Inr (?s\<lparr>neighbors_list := l'\<rparr>))"
    "mset l' = mset (neighbors_list s)" "sorted_desc (map (rssi M) l')"
    by auto
  then show ?thesis
    by (auto simp: fill_sort_dump_def M_def)
qed

lemma recv_known:
  fixes s :: "'a state" and n :: ptr and q :: "16 word"
  assumes "distinct (neighbors_list s)"
    and "find_neighbor (memb_mem s) (neighbors_list s) a = Some n"
  defines "M \<equiv> (memb_mem s)(n := (memb_mem s n)\<lparr>last_rssi := q\<rparr>)"
  shows "\<exists>out l'. broadcast_recv s a q = Some (Inr (out, s\<lparr>memb_mem := M, neighbors_list := l'\<rparr>))
            \<and> mset l' = mset (neighbors_list s) \<and> sorted_desc (map (rssi M) l')"
  using fill_sort_dump_correct [OF assms(1), where out = "[Received a q]" and n = n and q = q] assms(2)
  by (auto simp: broadcast_recv_def M_def)

lemma recv_new:
  assumes "pool_inv num s"
    and "find_neighbor (memb_mem s) (neighbors_list s) a = None"
    and "length (neighbors_list s) < num"
  shows "\<exists>out s' n. broadcast_recv s a q = Some (Inr (out, s')) \<and> pool_inv num s'
            \<and> n \<notin> set (neighbors_list s)
            \<and> memb_mem s' = (memb_mem s)(n := \<lparr>addr = a, last_rssi = q\<rparr>)
            \<and> mset (neighbors_list s') = mset (neighbors_list s @ [n])
            \<and> sorted_desc (map (rssi (memb_mem s')) (neighbors_list s'))"
proof -
  from assms(1,3) have "fst (memb_alloc s) \<noteq> None"
    by (simp add: memb_alloc_None)
  then obtain n s1 where al: "memb_alloc s = (Some n, s1)"
    by (metis not_None_eq prod.collapse)
  let ?s2 = "add_neighbor s1 n a"
  note add = pool_inv_add [OF assms(1) al]
  from add(1) have d: "distinct (neighbors_list ?s2)" by (simp add: pool_inv_iff)
  from fill_sort_dump_correct [OF d, where out = "[Received a q]" and n = n and q = q]
  obtain l' where l': "fill_sort_dump [Received a q] ?s2 n q =
        Some (Inr ([Received a q] @ dump (?s2\<lparr>memb_mem := (memb_mem ?s2)(n := (memb_mem ?s2 n)\<lparr>last_rssi := q\<rparr>), neighbors_list := l'\<rparr>),
                   ?s2\<lparr>memb_mem := (memb_mem ?s2)(n := (memb_mem ?s2 n)\<lparr>last_rssi := q\<rparr>), neighbors_list := l'\<rparr>))"
     "mset l' = mset (neighbors_list ?s2)"
     "sorted_desc (map (rssi ((memb_mem ?s2)(n := (memb_mem ?s2 n)\<lparr>last_rssi := q\<rparr>))) l')"
    by blast
  let ?s' = "?s2\<lparr>memb_mem := (memb_mem ?s2)(n := (memb_mem ?s2 n)\<lparr>last_rssi := q\<rparr>), neighbors_list := l'\<rparr>"
  have "set l' = set (neighbors_list ?s2)" "distinct l'"
    using l'(2) d by (metis mset_eq_setD, metis mset_eq_imp_distinct_iff)
  with add(1) have "pool_inv num ?s'"
    by (simp add: pool_inv_iff)
  moreover have "memb_mem ?s' = (memb_mem s)(n := \<lparr>addr = a, last_rssi = q\<rparr>)"
    by (simp add: add(3) neighbor_update_all)
  moreover have "broadcast_recv s a q = Some (Inr ([Received a q] @ dump ?s', ?s'))"
    using assms(2) al l'(1) by (simp add: broadcast_recv_def)
  ultimately show ?thesis
    using l'(2,3) add(2,4) by (intro exI [of _ "?s'"] exI [of _ n] exI) auto
qed


lemma recv_full:
  assumes "pool_inv num s" and "0 < num"
    and "find_neighbor (memb_mem s) (neighbors_list s) a = None"
    and "length (neighbors_list s) = num"
  shows "neighbors_list s \<noteq> []" and "memb_alloc s = (None, s)"
    and "list_tail (neighbors_list s) = Some (last (neighbors_list s))"
proof -
  show ne: "neighbors_list s \<noteq> []" using assms(2,4) by auto
  show "memb_alloc s = (None, s)"
    using assms(1,4) by (simp add: memb_alloc_None memb_alloc_None_state)
  show "list_tail (neighbors_list s) = Some (last (neighbors_list s))"
    using ne by (simp add: list_tail_def split: list.splits)
qed

lemma recv_reject:
  assumes "pool_inv num s" and "0 < num"
    and "find_neighbor (memb_mem s) (neighbors_list s) a = None"
    and "length (neighbors_list s) = num"
    and "\<not> last_rssi (memb_mem s (last (neighbors_list s))) < q"
  shows "broadcast_recv s a q = Some (Inr ([Received a q, DebugReject], s))"
  using recv_full [OF assms(1-4)] assms(3,5) by (simp add: broadcast_recv_def)

lemma recv_evict:
  assumes "pool_inv num s" and "0 < num"
    and "find_neighbor (memb_mem s) (neighbors_list s) a = None"
    and "length (neighbors_list s) = num"
    and "last_rssi (memb_mem s (last (neighbors_list s))) < q"
  shows "\<exists>out s' n. broadcast_recv s a q = Some (Inr (out, s')) \<and> pool_inv num s'
            \<and> n \<notin> set (butlast (neighbors_list s))
            \<and> memb_mem s' = (memb_mem s)(n := \<lparr>addr = a, last_rssi = q\<rparr>)
            \<and> mset (neighbors_list s') = mset (butlast (neighbors_list s) @ [n])
            \<and> sorted_desc (map (rssi (memb_mem s')) (neighbors_list s'))"
proof -
  note full = recv_full [OF assms(1-4)]
  let ?t = "last (neighbors_list s)"
  let ?s1 = "memb_free (s\<lparr>neighbors_list := list_remove (neighbors_list s) ?t\<rparr>) ?t"
  note ev = pool_inv_evict [OF assms(1) full(1)]
  have fn: "find_neighbor (memb_mem ?s1) (neighbors_list ?s1) a = None"
    using assms(3) unfolding find_neighbor_None ev(2,3) by (auto dest: in_set_butlastD)
  from recv_new [OF ev(1) fn ev(4), of q]
  obtain out s' n where r: "broadcast_recv ?s1 a q = Some (Inr (out, s'))" "pool_inv num s'"
    "n \<notin> set (butlast (neighbors_list s))"
    "memb_mem s' = (memb_mem s)(n := \<lparr>addr = a, last_rssi = q\<rparr>)"
    "mset (neighbors_list s') = mset (butlast (neighbors_list s) @ [n])"
    "sorted_desc (map (rssi (memb_mem s')) (neighbors_list s'))"
    unfolding ev(2,3) by blast
  from ev(1,4) have "fst (memb_alloc ?s1) \<noteq> None"
    by (simp add: memb_alloc_None)
  then obtain m s2 where al: "memb_alloc ?s1 = (Some m, s2)"
    by (metis not_None_eq prod.collapse)
  from r(1) fn al
  have f: "fill_sort_dump [Received a q] (add_neighbor s2 m a) m q = Some (Inr (out, s'))"
    by (simp add: broadcast_recv_def)
  obtain out' where "fill_sort_dump
        [Received a q, DebugRemove (addr (memb_mem s ?t)) (last_rssi (memb_mem s ?t))]
        (add_neighbor s2 m a) m q = Some (Inr (out', s'))"
    using f by (auto simp: fill_sort_dump_def split: option.splits sum.splits)
  then have "broadcast_recv s a q = Some (Inr (out', s'))"
    using full assms(3,5) al by (simp add: broadcast_recv_def)
  with r show ?thesis by blast
qed

lemma recv_null:
  assumes "find_neighbor (memb_mem s) (neighbors_list s) a = None"
    and "fst (memb_alloc s) = None" and "neighbors_list s = []"
  shows "broadcast_recv s a q = Some (Inl NullDereference)"
  using assms memb_alloc_None_state [OF assms(2)]
  by (simp add: broadcast_recv_def list_tail_def)

section \<open>The table invariant is preserved\<close>

lemma distinct_map_mset:
  "mset l' = mset l \<Longrightarrow> distinct (map f l') \<longleftrightarrow> distinct (map f l)"
  by (metis mset_eq_imp_distinct_iff mset_map)

lemma pool_inv_perm:
  assumes "pool_inv num s" and "mset l' = mset (neighbors_list s)"
  shows "pool_inv num (s\<lparr>memb_mem := M, neighbors_list := l'\<rparr>)"
proof -
  have "set l' = set (neighbors_list s)" "distinct l' = distinct (neighbors_list s)"
    using assms(2) by (metis mset_eq_setD, metis mset_eq_imp_distinct_iff)
  with assms(1) show ?thesis by (simp add: pool_inv_iff)
qed

text \<open>The snapshot after a node \<open>n\<close> that is not on \<open>xs\<close> was filled and listed.\<close>

lemma snapshot_insert:
  assumes "memb_mem s' = (memb_mem s)(n := \<lparr>addr = a, last_rssi = q\<rparr>)"
    and "mset (neighbors_list s') = mset (xs @ [n])" and "n \<notin> set xs"
  shows "mset (snapshot s') =
           mset (map (\<lambda>p. (addr (memb_mem s p), last_rssi (memb_mem s p))) xs) + {#(a, q)#}"
proof -
  let ?g = "\<lambda>p. (addr (memb_mem s p), last_rssi (memb_mem s p))"
  let ?g' = "\<lambda>p. (addr (memb_mem s' p), last_rssi (memb_mem s' p))"
  have "mset (snapshot s') = image_mset ?g' (mset (neighbors_list s'))"
    by (simp add: snapshot_def)
  also have "\<dots> = mset (map ?g' xs) + {#?g' n#}"
    by (simp add: assms(2))
  also have "map ?g' xs = map ?g xs"
    using assms(3) by (intro map_cong) (auto simp: assms(1))
  also have "?g' n = (a, q)"
    by (simp add: assms(1))
  finally show ?thesis .
qed

lemma table_inv_insert:
  assumes "pool_inv num s'"
    and "memb_mem s' = (memb_mem s)(n := \<lparr>addr = a, last_rssi = q\<rparr>)"
    and "mset (neighbors_list s') = mset (xs @ [n])" and "n \<notin> set xs"
    and "sorted_desc (map (rssi (memb_mem s')) (neighbors_list s'))"
    and "distinct (map (\<lambda>p. addr (memb_mem s p)) xs)"
    and "\<forall>p \<in> set xs. addr (memb_mem s p) \<noteq> a"
  shows "table_inv num s'"
proof -
  let ?g = "\<lambda>p. (addr (memb_mem s p), last_rssi (memb_mem s p))"
  have "mset (map fst (snapshot s')) = image_mset fst (mset (snapshot s'))"
    by simp
  also have "\<dots> = mset (map (\<lambda>p. addr (memb_mem s p)) xs @ [a])"
    unfolding snapshot_insert [OF assms(2-4)] by (simp add: multiset.map_comp comp_def)
  finally have "distinct (map fst (snapshot s')) \<longleftrightarrow>
      distinct (map (\<lambda>p. addr (memb_mem s p)) xs @ [a])"
    by (rule mset_eq_imp_distinct_iff)
  with assms(6,7) have "distinct (map fst (snapshot s'))" by auto
  with assms(1,5) show ?thesis
    by (simp add: table_inv_def snapshot_snd)
qed

lemma recv_table_inv:
  assumes "table_inv num s" and "0 < num"
  shows "\<exists>out s'. broadcast_recv s a q = Some (Inr (out, s')) \<and> table_inv num s'"
proof -
  let ?l = "neighbors_list s"
  from assms(1) have pool: "pool_inv num s"
    and uniq: "distinct (map (\<lambda>p. addr (memb_mem s p)) ?l)"
    by (simp_all add: table_inv_def snapshot_fst)
  from pool have d: "distinct ?l" by (simp add: pool_inv_iff)
  show ?thesis
  proof (cases "find_neighbor (memb_mem s) ?l a")
    case (Some n)
    let ?M = "(memb_mem s)(n := (memb_mem s n)\<lparr>last_rssi := q\<rparr>)"
    from recv_known [OF d Some, of q]
    obtain out l' where r: "broadcast_recv s a q = Some (Inr (out, s\<lparr>memb_mem := ?M, neighbors_list := l'\<rparr>))"
      "mset l' = mset ?l" "sorted_desc (map (rssi ?M) l')"
      by blast
    let ?s' = "s\<lparr>memb_mem := ?M, neighbors_list := l'\<rparr>"
    have "map fst (snapshot ?s') = map (\<lambda>p. addr (memb_mem s p)) l'"
      by (simp add: snapshot_def)
    with uniq distinct_map_mset [OF r(2), of "\<lambda>p. addr (memb_mem s p)"]
    have "distinct (map fst (snapshot ?s'))"
      by simp
    with pool_inv_perm [OF pool r(2), of ?M] r(3) have "table_inv num ?s'"
      by (simp add: table_inv_def snapshot_snd)
    with r(1) show ?thesis by blast
  next
    case None
    then have na: "\<forall>p \<in> set ?l. addr (memb_mem s p) \<noteq> a"
      by (simp add: find_neighbor_None)
    show ?thesis
    proof (cases "length ?l < num")
      case True
      from recv_new [OF pool None True, of q]
      obtain out s' n where r: "broadcast_recv s a q = Some (Inr (out, s'))" "pool_inv num s'"
        "n \<notin> set ?l" "memb_mem s' = (memb_mem s)(n := \<lparr>addr = a, last_rssi = q\<rparr>)"
        "mset (neighbors_list s') = mset (?l @ [n])"
        "sorted_desc (map (rssi (memb_mem s')) (neighbors_list s'))"
        by blast
      from table_inv_insert [OF r(2,4,5,3,6) uniq na] r(1) show ?thesis by blast
    next
      case False
      with pool_length_le [OF pool] have full: "length ?l = num" by simp
      show ?thesis
      proof (cases "last_rssi (memb_mem s (last ?l)) < q")
        case True
        from recv_evict [OF pool assms(2) None full True]
        obtain out s' n where r: "broadcast_recv s a q = Some (Inr (out, s'))" "pool_inv num s'"
          "n \<notin> set (butlast ?l)" "memb_mem s' = (memb_mem s)(n := \<lparr>addr = a, last_rssi = q\<rparr>)"
          "mset (neighbors_list s') = mset (butlast ?l @ [n])"
          "sorted_desc (map (rssi (memb_mem s')) (neighbors_list s'))"
          by blast
        have "distinct (map (\<lambda>p. addr (memb_mem s p)) (butlast ?l))"
          using distinct_butlast [OF uniq] by (simp add: map_butlast)
        moreover have "\<forall>p \<in> set (butlast ?l). addr (memb_mem s p) \<noteq> a"
          using na by (auto dest: in_set_butlastD)
        ultimately show ?thesis
          using table_inv_insert [OF r(2,4,5,3,6)] r(1) by blast
      next
        case False
        from recv_reject [OF pool assms(2) None full False] assms(1)
        show ?thesis by blast
      qed
    qed
  qed
qed

lemma table_inv_init: "table_inv num (init_state num mem0)"
  by (simp add: table_inv_def pool_inv_iff init_state_def snapshot_def sorted_desc_def)

lemma observe_all_table_inv:
  assumes "table_inv num s" and "0 < num"
  shows "\<exists>s'. observe_all s obs = Some (Inr s') \<and> table_inv num s'"
  using assms(1)
proof (induction obs arbitrary: s)
  case Nil
  then show ?case by simp
next
  case (Cons ob obs)
  from recv_table_inv [OF Cons.prems assms(2), of "fst ob" "snd ob"]
  obtain out s1 where r: "broadcast_recv s (fst ob) (snd ob) = Some (Inr (out, s1))"
    "table_inv num s1"
    by blast
  from Cons.IH [OF r(2)] r(1) show ?case by simp
qed

lemma reachable_table_inv:
  "0 < num \<Longrightarrow> \<exists>s. observe_all (init_state num mem0) obs = Some (Inr s) \<and> table_inv num s"
  by (rule observe_all_table_inv [OF table_inv_init])

lemma pool_occupancy:
  assumes "pool_inv num s"
  shows "length (filter (\<lambda>c. c \<noteq> 0) (memb_count s)) = length (neighbors_list s)"
proof -
  have "{i. i < length (memb_count s) \<and> memb_count s ! i \<noteq> 0} = set (neighbors_list s)"
    using assms by (auto simp: pool_inv_iff split: if_splits)
  then have "length (filter (\<lambda>c. c \<noteq> 0) (memb_count s)) = card (set (neighbors_list s))"
    by (simp add: length_filter_conv_card)
  with assms show ?thesis by (simp add: pool_inv_iff distinct_card)
qed

section \<open>The full table\<close>

lemma sorted_desc_last_Min:
  assumes "sorted_desc qs" and "qs \<noteq> []"
  shows "last qs = Min (set qs)"
proof -
  have qs: "qs = butlast qs @ [last qs]" using assms(2) by simp
  have "sorted_wrt (\<lambda>a b. b \<le> a) (butlast qs @ [last qs])"
    using assms(1) qs by (simp add: sorted_desc_def)
  then have "\<forall>x \<in> set (butlast qs). last qs \<le> x"
    by (simp add: sorted_wrt_append)
  moreover have "set qs = insert (last qs) (set (butlast qs))"
    by (subst qs) simp
  ultimately have "\<forall>x \<in> set qs. last qs \<le> x" by auto
  then show ?thesis
    using assms(2) by (intro Min_eqI [symmetric]) auto
qed

lemma snapshot_last:
  "neighbors_list s \<noteq> [] \<Longrightarrow>
     snd (last (snapshot s)) = last_rssi (memb_mem s (last (neighbors_list s)))"
  by (simp add: snapshot_def last_map)

lemma snapshot_addrs:
  "fst ` set (snapshot s) = (\<lambda>p. addr (memb_mem s p)) ` set (neighbors_list s)"
  by (simp add: snapshot_def image_image)

lemma full_table_cases:
  assumes "sorted_desc (map snd (snapshot s))" and "0 < num" and "length (snapshot s) = num"
    and "a \<notin> fst ` set (snapshot s)"
  shows "find_neighbor (memb_mem s) (neighbors_list s) a = None"
    and "length (neighbors_list s) = num" and "neighbors_list s \<noteq> []"
    and "last_rssi (memb_mem s (last (neighbors_list s))) = Min (snd ` set (snapshot s))"
proof -
  show "find_neighbor (memb_mem s) (neighbors_list s) a = None"
    using assms(4) unfolding snapshot_addrs find_neighbor_None by blast
  show len: "length (neighbors_list s) = num"
    using assms(3) by (simp add: snapshot_def)
  with assms(2) show ne: "neighbors_list s \<noteq> []" by auto
  have sn: "snapshot s \<noteq> []"
    using ne by (simp add: snapshot_def)
  have "sorted_desc (map snd (snapshot s))" "map snd (snapshot s) \<noteq> []"
    using assms(1) sn by simp_all
  from sorted_desc_last_Min [OF this]
  have "snd (last (snapshot s)) = Min (snd ` set (snapshot s))"
    using sn by (simp add: last_map)
  then show "last_rssi (memb_mem s (last (neighbors_list s))) = Min (snd ` set (snapshot s))"
    using ne by (simp add: snapshot_last)
qed

lemma upt_0_2: "[0..<2] = [0, Suc 0]"
  by (simp add: numeral_2_eq_2)

lemma full_state_pool_inv: "pool_inv 2 full_state"
  by (simp add: pool_inv_def full_state_def upt_0_2)

lemma full_state_sorted: "sorted_desc (map snd (snapshot full_state))"
  by (simp add: snapshot_def full_state_def sorted_desc_def)

section \<open>The scenario of the specification\<close>

text \<open>
  With a pool of two blocks: the neighbours 1 and 2 are heard with the qualities 10 and
  20, neighbour 3 is rejected with quality 5 and replaces neighbour 1 with quality 15,
  and neighbour 2 drops behind it when it is heard again with quality 3.
\<close>

lemma scenario_tables:
  "map_option (map_sum id snapshot)
     (observe_all (init_state 2 zero_mem) [(1, 10), (2, 20)]) = Some (Inr [(2, 20), (1, 10)])"
  "map_option (map_sum id snapshot)
     (observe_all (init_state 2 zero_mem) [(1, 10), (2, 20), (3, 5)]) = Some (Inr [(2, 20), (1, 10)])"
  "map_option (map_sum id snapshot)
     (observe_all (init_state 2 zero_mem) [(1, 10), (2, 20), (3, 5), (3, 15)]) =
     Some (Inr [(2, 20), (3, 15)])"
  "map_option (map_sum id snapshot)
     (observe_all (init_state 2 zero_mem) [(1, 10), (2, 20), (3, 5), (3, 15), (2, 3)]) =
     Some (Inr [(3, 15), (2, 3)])"
  by code_simp+

text \<open>
  Two neighbours with the same quality change places when a third neighbour is sorted
  in behind them.
\<close>

lemma scenario_ties:
  "map_option (map_sum id snapshot)
     (observe_all (init_state MAX_NEIGHBORS zero_mem) [(1, 5), (2, 5), (3, 1)]) =
     Some (Inr [(1, 5), (2, 5), (3, 1)])"
  "map_option (map_sum id snapshot)
     (observe_all (init_state MAX_NEIGHBORS zero_mem) [(1, 5), (2, 5), (3, 1), (4, 3)]) =
     Some (Inr [(2, 5), (1, 5), (4, 3), (3, 1)])"
  by code_simp+

section \<open>Sortedness\<close>

text \<open>
  C1: for every sequence of packets delivered to \<open>broadcast_recv\<close>, starting from the
  empty table of a pool with at least one block, every call returns and the table is
  then in non-increasing order of signal quality: for all adjacent positions \<open>i\<close> and
  \<open>i + 1\<close> of the snapshot the quality at \<open>i + 1\<close> is at most the quality at \<open>i\<close>.
  The sequence is arbitrary, so this holds after each call of the sequence.
\<close>

theorem table_sorted_after_observe:
  "0 < num \<Longrightarrow>
     \<exists>s. observe_all (init_state num mem0) obs = Some (Inr s)
       \<and> (\<forall>i. Suc i < length (snapshot s) \<longrightarrow> snd (snapshot s ! Suc i) \<le> snd (snapshot s ! i))"
proof -
  assume "0 < num"
  from reachable_table_inv [OF this, of mem0 obs]
  obtain s where s: "observe_all (init_state num mem0) obs = Some (Inr s)" "table_inv num s"
    by blast
  from s(2) have srt: "sorted_desc (map (rssi (memb_mem s)) (neighbors_list s))"
    by (simp add: table_inv_def snapshot_snd)
  have "snd (snapshot s ! Suc i) \<le> snd (snapshot s ! i)" if "Suc i < length (snapshot s)" for i
    using sorted_desc_adjacent [OF srt, of i] that by (simp add: snapshot_def rssi_def)
  with s(1) show ?thesis by blast
qed

theorem table_sorted_after_observe_witness:
  "0 < MAX_NEIGHBORS \<and>
   (\<exists>s. observe_all (init_state MAX_NEIGHBORS zero_mem) [(1, 10), (2, 20), (1, 30)] = Some (Inr s)
       \<and> (\<forall>i. Suc i < length (snapshot s) \<longrightarrow> snd (snapshot s ! Suc i) \<le> snd (snapshot s ! i)))"
proof -
  have h: "0 < MAX_NEIGHBORS" by (simp add: MAX_NEIGHBORS_def)
  from table_sorted_after_observe [OF h] h show ?thesis by blast
qed

section \<open>Eviction\<close>

text \<open>
  C2: in a state whose table is full (it has as many records as the pool has blocks,
  all of them in use by the list) and in non-increasing order of signal quality, a
  packet from an address that is not in the table, with a signal quality strictly
  greater than the minimum quality of the table, is accepted: the last record of the
  table, which has the minimum quality, is removed, the new table holds the other
  records and the record of the new address with the new quality, and the size of the
  table is unchanged.  When the addresses of the table are unique, the address of the
  removed record is no longer in the table.
\<close>

theorem eviction_correct:
  assumes "pool_inv num s" and "sorted_desc (map snd (snapshot s))"
    and "0 < num" and "length (snapshot s) = num"
    and "a \<notin> fst ` set (snapshot s)" and "Min (snd ` set (snapshot s)) < q"
  shows "\<exists>out s'. broadcast_recv s a q = Some (Inr (out, s'))
           \<and> snd (last (snapshot s)) = Min (snd ` set (snapshot s))
           \<and> mset (snapshot s') = mset (butlast (snapshot s)) + {#(a, q)#}
           \<and> (a, q) \<in> set (snapshot s')
           \<and> length (snapshot s') = length (snapshot s)
           \<and> (distinct (map fst (snapshot s)) \<longrightarrow>
                fst (last (snapshot s)) \<notin> fst ` set (snapshot s'))"
proof -
  note full = full_table_cases [OF assms(2-5)]
  let ?l = "neighbors_list s"
  have lt: "last_rssi (memb_mem s (last ?l)) < q"
    using assms(6) full(4) by simp
  from recv_evict [OF assms(1,3) full(1,2) lt]
  obtain out s' n where r: "broadcast_recv s a q = Some (Inr (out, s'))"
    "n \<notin> set (butlast ?l)" "memb_mem s' = (memb_mem s)(n := \<lparr>addr = a, last_rssi = q\<rparr>)"
    "mset (neighbors_list s') = mset (butlast ?l @ [n])"
    by blast
  have m: "mset (snapshot s') = mset (butlast (snapshot s)) + {#(a, q)#}"
    using snapshot_insert [OF r(3,4,2)] by (simp add: snapshot_def map_butlast)
  have ne: "snapshot s \<noteq> []"
    using full(3) by (simp add: snapshot_def)
  have s': "set (snapshot s') = insert (a, q) (set (butlast (snapshot s)))"
  proof -
    have "set_mset (mset (snapshot s')) = set_mset (mset (butlast (snapshot s)) + {#(a, q)#})"
      by (simp only: m)
    then show ?thesis by simp
  qed
  have gone: "fst (last (snapshot s)) \<notin> fst ` set (snapshot s')"
    if u: "distinct (map fst (snapshot s))"
  proof -
    have "snapshot s = butlast (snapshot s) @ [last (snapshot s)]"
      using ne by simp
    with u have "distinct (map fst (butlast (snapshot s) @ [last (snapshot s)]))"
      by simp
    then have "fst (last (snapshot s)) \<notin> fst ` set (butlast (snapshot s))"
      by simp
    moreover have "fst (last (snapshot s)) \<noteq> a"
    proof -
      from ne have "last (snapshot s) \<in> set (snapshot s)" by (rule last_in_set)
      then have "fst (last (snapshot s)) \<in> fst ` set (snapshot s)" by (rule imageI)
      with assms(5) show ?thesis by blast
    qed
    ultimately show ?thesis by (auto simp: s')
  qed
  have "length (snapshot s') = length (snapshot s)"
  proof -
    have "size (mset (snapshot s')) = size (mset (butlast (snapshot s)) + {#(a, q)#})"
      by (simp only: m)
    then show ?thesis using ne by simp
  qed
  moreover have "snd (last (snapshot s)) = Min (snd ` set (snapshot s))"
    using full(3,4) by (simp add: snapshot_last)
  moreover have "(a, q) \<in> set (snapshot s')"
    by (simp add: s')
  ultimately show ?thesis
    using r(1) m gone by blast
qed

theorem eviction_correct_witness:
  "pool_inv 2 full_state \<and> sorted_desc (map snd (snapshot full_state))
   \<and> (0 :: nat) < 2 \<and> length (snapshot full_state) = 2
   \<and> 3 \<notin> fst ` set (snapshot full_state) \<and> Min (snd ` set (snapshot full_state)) < 15
   \<and> (\<exists>out s'. broadcast_recv full_state 3 15 = Some (Inr (out, s'))
           \<and> snd (last (snapshot full_state)) = Min (snd ` set (snapshot full_state))
           \<and> mset (snapshot s') = mset (butlast (snapshot full_state)) + {#(3, 15)#}
           \<and> (3, 15) \<in> set (snapshot s')
           \<and> length (snapshot s') = length (snapshot full_state)
           \<and> (distinct (map fst (snapshot full_state)) \<longrightarrow>
                fst (last (snapshot full_state)) \<notin> fst ` set (snapshot s')))"
proof -
  have h: "(0 :: nat) < 2" "length (snapshot full_state) = 2"
    "3 \<notin> fst ` set (snapshot full_state)" "Min (snd ` set (snapshot full_state)) < 15"
    by (simp_all add: snapshot_def full_state_def)
  from eviction_correct [OF full_state_pool_inv full_state_sorted h]
    full_state_pool_inv full_state_sorted h
  show ?thesis by blast
qed

section \<open>Admission rejection\<close>

text \<open>
  C3: in a state whose table is full (it has as many records as the pool has blocks,
  all of them in use by the list) and in non-increasing order of signal quality, a
  packet from an address that is not in the table, with a signal quality less than or
  equal to the minimum quality of the table, is rejected: the program prints the
  rejection line after the reception line and no dump, and the state is the same
  state, so the size, the addresses, the qualities and the order of the table are
  unchanged.
\<close>

theorem admission_rejection:
  assumes "pool_inv num s" and "sorted_desc (map snd (snapshot s))"
    and "0 < num" and "length (snapshot s) = num"
    and "a \<notin> fst ` set (snapshot s)" and "q \<le> Min (snd ` set (snapshot s))"
  shows "broadcast_recv s a q = Some (Inr ([Received a q, DebugReject], s))"
proof -
  note full = full_table_cases [OF assms(2-5)]
  have "\<not> last_rssi (memb_mem s (last (neighbors_list s))) < q"
    using assms(6) full(4) by simp
  from recv_reject [OF assms(1,3) full(1,2) this] show ?thesis .
qed

theorem admission_rejection_witness:
  "pool_inv 2 full_state \<and> sorted_desc (map snd (snapshot full_state))
   \<and> (0 :: nat) < 2 \<and> length (snapshot full_state) = 2
   \<and> 3 \<notin> fst ` set (snapshot full_state) \<and> 5 \<le> Min (snd ` set (snapshot full_state))
   \<and> broadcast_recv full_state 3 5 = Some (Inr ([Received 3 5, DebugReject], full_state))"
proof -
  have h: "(0 :: nat) < 2" "length (snapshot full_state) = 2"
    "3 \<notin> fst ` set (snapshot full_state)" "5 \<le> Min (snd ` set (snapshot full_state))"
    by (simp_all add: snapshot_def full_state_def)
  from admission_rejection [OF full_state_pool_inv full_state_sorted h]
    full_state_pool_inv full_state_sorted h
  show ?thesis by blast
qed

section \<open>Bounded size\<close>

text \<open>
  C4: for every sequence of packets starting from the empty table, the table never
  holds more records than the pool has blocks (\<open>MAX_NEIGHBORS\<close>).
\<close>

theorem table_size_bounded:
  "0 < num \<Longrightarrow>
     \<exists>s. observe_all (init_state num mem0) obs = Some (Inr s) \<and> length (snapshot s) \<le> num"
proof -
  assume "0 < num"
  from reachable_table_inv [OF this, of mem0 obs]
  obtain s where s: "observe_all (init_state num mem0) obs = Some (Inr s)" "table_inv num s"
    by blast
  from s(2) have "pool_inv num s" by (simp add: table_inv_def)
  from pool_length_le [OF this] have "length (snapshot s) \<le> num"
    by (simp add: snapshot_def)
  with s(1) show ?thesis by blast
qed

theorem table_size_bounded_witness:
  "0 < MAX_NEIGHBORS \<and>
   (\<exists>s. observe_all (init_state MAX_NEIGHBORS zero_mem)
          [(1, 10), (2, 20), (3, 30), (4, 40), (5, 50), (6, 60), (7, 70)] = Some (Inr s)
       \<and> length (snapshot s) \<le> MAX_NEIGHBORS)"
proof -
  have h: "0 < MAX_NEIGHBORS" by (simp add: MAX_NEIGHBORS_def)
  from table_size_bounded [OF h] h show ?thesis by blast
qed

section \<open>Uniqueness\<close>

text \<open>
  C5: for every sequence of packets starting from the empty table, no two records of
  the table have the same address.
\<close>

theorem table_addresses_unique:
  "0 < num \<Longrightarrow>
     \<exists>s. observe_all (init_state num mem0) obs = Some (Inr s) \<and> distinct (map fst (snapshot s))"
proof -
  assume "0 < num"
  from reachable_table_inv [OF this, of mem0 obs]
  obtain s where s: "observe_all (init_state num mem0) obs = Some (Inr s)" "table_inv num s"
    by blast
  then show ?thesis by (auto simp: table_inv_def)
qed

theorem table_addresses_unique_witness:
  "0 < MAX_NEIGHBORS \<and>
   (\<exists>s. observe_all (init_state MAX_NEIGHBORS zero_mem) [(1, 10), (2, 20), (1, 10), (2, 5)] = Some (Inr s)
       \<and> distinct (map fst (snapshot s)))"
proof -
  have h: "0 < MAX_NEIGHBORS" by (simp add: MAX_NEIGHBORS_def)
  from table_addresses_unique [OF h] h show ?thesis by blast
qed

section \<open>Update in place\<close>

text \<open>
  C6: for every state (whose list is a sequence of distinct nodes) and every packet
  whose address is in the table, \<open>broadcast_recv\<close> returns, and the only block it
  changes is the first node \<open>n\<close> with that address, of which it changes the signal
  quality only: every other record keeps its address and quality, the nodes of the
  list are the same nodes (none is added or removed, only their order may change), the
  pool is untouched and the size of the table is the same.  When the addresses of the
  table are unique, the new table is the old one with the quality of that address
  replaced, up to order.
\<close>

theorem update_in_place:
  assumes "distinct (neighbors_list s)" and "a \<in> fst ` set (snapshot s)"
  shows "\<exists>out s' n. broadcast_recv s a q = Some (Inr (out, s'))
           \<and> n \<in> set (neighbors_list s) \<and> addr (memb_mem s n) = a
           \<and> memb_mem s' = (memb_mem s)(n := (memb_mem s n)\<lparr>last_rssi := q\<rparr>)
           \<and> mset (neighbors_list s') = mset (neighbors_list s)
           \<and> memb_count s' = memb_count s
           \<and> length (snapshot s') = length (snapshot s)
           \<and> (distinct (map fst (snapshot s)) \<longrightarrow>
                mset (snapshot s') =
                  image_mset (\<lambda>r. if fst r = a then (a, q) else r) (mset (snapshot s)))"
proof -
  let ?l = "neighbors_list s"
  from assms(2) have "find_neighbor (memb_mem s) ?l a \<noteq> None"
    unfolding snapshot_addrs find_neighbor_None by blast
  then obtain n where f: "find_neighbor (memb_mem s) ?l a = Some n" by blast
  from find_neighbor_Some [OF f] have n: "n \<in> set ?l" "addr (memb_mem s n) = a" by auto
  let ?M = "(memb_mem s)(n := (memb_mem s n)\<lparr>last_rssi := q\<rparr>)"
  from recv_known [OF assms(1) f, of q]
  obtain out l' where r: "broadcast_recv s a q = Some (Inr (out, s\<lparr>memb_mem := ?M, neighbors_list := l'\<rparr>))"
    "mset l' = mset ?l"
    by blast
  let ?s' = "s\<lparr>memb_mem := ?M, neighbors_list := l'\<rparr>"
  let ?g = "\<lambda>p. (addr (memb_mem s p), last_rssi (memb_mem s p))"
  let ?g' = "\<lambda>p. (addr (?M p), last_rssi (?M p))"
  let ?h = "\<lambda>r. if fst r = a then (a, q) else r"
  have len: "length (snapshot ?s') = length (snapshot s)"
    using mset_eq_length [OF r(2)] by (simp add: snapshot_def)
  have snap: "mset (snapshot ?s') = image_mset ?h (mset (snapshot s))"
    if u: "distinct (map fst (snapshot s))"
  proof -
    from u have inj: "inj_on (\<lambda>p. addr (memb_mem s p)) (set ?l)"
      by (simp add: snapshot_fst distinct_map)
    have eq: "?g' p = ?h (?g p)" if "p \<in> set ?l" for p
    proof (cases "p = n")
      case True
      with n show ?thesis by simp
    next
      case False
      with inj that n have "addr (memb_mem s p) \<noteq> a"
        by (auto dest: inj_onD)
      with False show ?thesis by simp
    qed
    have "mset (snapshot ?s') = image_mset ?g' (mset ?l)"
      by (simp add: snapshot_def r(2))
    also have "\<dots> = image_mset (\<lambda>p. ?h (?g p)) (mset ?l)"
    proof (rule image_mset_cong)
      fix p
      assume "p \<in># mset ?l"
      then have "p \<in> set ?l" by simp
      then show "?g' p = ?h (?g p)" by (rule eq)
    qed
    also have "\<dots> = image_mset ?h (mset (snapshot s))"
      by (simp add: snapshot_def multiset.map_comp comp_def)
    finally show ?thesis .
  qed
  show ?thesis
    using r n len snap by (intro exI [of _ out] exI [of _ ?s'] exI [of _ n]) simp
qed

theorem update_in_place_witness:
  "distinct (neighbors_list full_state) \<and> 1 \<in> fst ` set (snapshot full_state)
   \<and> (\<exists>out s' n. broadcast_recv full_state 1 30 = Some (Inr (out, s'))
           \<and> n \<in> set (neighbors_list full_state) \<and> addr (memb_mem full_state n) = 1
           \<and> memb_mem s' = (memb_mem full_state)(n := (memb_mem full_state n)\<lparr>last_rssi := 30\<rparr>)
           \<and> mset (neighbors_list s') = mset (neighbors_list full_state)
           \<and> memb_count s' = memb_count full_state
           \<and> length (snapshot s') = length (snapshot full_state)
           \<and> (distinct (map fst (snapshot full_state)) \<longrightarrow>
                mset (snapshot s') =
                  image_mset (\<lambda>r. if fst r = 1 then (1, 30) else r) (mset (snapshot full_state))))"
proof -
  have h: "distinct (neighbors_list full_state)" "1 \<in> fst ` set (snapshot full_state)"
    by (simp_all add: snapshot_def full_state_def)
  from update_in_place [OF h] h show ?thesis by blast
qed

section \<open>The sort is not stable\<close>

text \<open>
  C7 claims that the sort keeps the relative order of the entries with equal signal
  quality.  It does not: on the table of the neighbours 1, 2 and 3 with the qualities
  1, 2 and 2 it first pushes neighbour 2 and then neighbour 3 to the head, so the two
  entries with quality 2 are in the order 2, 3 before the sort and in the order 3, 2
  after it.
\<close>

theorem sort_not_stable_counterexample:
  "ties 2 tie_state = [(2, 2), (3, 2)] \<and>
   map_option (map_sum id (ties 2)) (sort_list_based_on_rssi tie_state) = Some (Inr [(3, 2), (2, 2)])"
  by code_simp

text \<open>
  C7 as amended: for every table (a sequence of distinct nodes) the sort returns, with
  the same records in non-increasing order of signal quality, and a table that is
  already in that order is returned as it is, so there the relative order of the
  entries with equal quality is kept.  The result is a function of the table, so the
  report is deterministic; entries with equal quality that the sort moves may change
  their relative order.
\<close>

theorem sort_sorted_permutation:
  assumes "distinct (neighbors_list s)"
  shows "\<exists>s'. sort_list_based_on_rssi s = Some (Inr s')
           \<and> mset (snapshot s') = mset (snapshot s)
           \<and> (\<forall>i. Suc i < length (snapshot s') \<longrightarrow> snd (snapshot s' ! Suc i) \<le> snd (snapshot s' ! i))
           \<and> (sorted_desc (map snd (snapshot s)) \<longrightarrow> s' = s)"
proof -
  from sort_list_based_on_rssi_correct [OF assms]
  obtain l' where l': "sort_list_based_on_rssi s = Some (Inr (s\<lparr>neighbors_list := l'\<rparr>))"
    "mset l' = mset (neighbors_list s)" "sorted_desc (map (rssi (memb_mem s)) l')"
    "sorted_desc (map (rssi (memb_mem s)) (neighbors_list s)) \<longrightarrow> l' = neighbors_list s"
    by blast
  let ?s' = "s\<lparr>neighbors_list := l'\<rparr>"
  have "mset (snapshot ?s') = mset (snapshot s)"
    by (simp add: snapshot_def l'(2))
  moreover have "snd (snapshot ?s' ! Suc i) \<le> snd (snapshot ?s' ! i)"
    if "Suc i < length (snapshot ?s')" for i
    using sorted_desc_adjacent [OF l'(3), of i] that by (simp add: snapshot_def rssi_def)
  moreover have "?s' = s" if "sorted_desc (map snd (snapshot s))"
    using that l'(4) by (simp add: snapshot_snd)
  ultimately show ?thesis
    using l'(1) by (intro exI [of _ ?s']) simp
qed

theorem sort_sorted_permutation_witness:
  "distinct (neighbors_list tie_state) \<and>
   (\<exists>s'. sort_list_based_on_rssi tie_state = Some (Inr s')
           \<and> mset (snapshot s') = mset (snapshot tie_state)
           \<and> (\<forall>i. Suc i < length (snapshot s') \<longrightarrow> snd (snapshot s' ! Suc i) \<le> snd (snapshot s' ! i))
           \<and> (sorted_desc (map snd (snapshot tie_state)) \<longrightarrow> s' = tie_state))"
proof -
  have h: "distinct (neighbors_list tie_state)" by (simp add: tie_state_def)
  from sort_sorted_permutation [OF h] h show ?thesis by blast
qed

section \<open>A pool without blocks\<close>

text \<open>
  C8 claims that with \<open>MAX_NEIGHBORS\<close> set to zero every call is rejected and the
  eviction branch is well defined on the empty table.  It is not: on the empty table of
  a pool without blocks \<open>memb_alloc\<close> fails, \<open>list_tail\<close> returns \<open>NULL\<close> and
  \<open>broadcast_recv\<close> reads \<open>lowest_rssi_neighbor->last_rssi\<close> through it.
\<close>

theorem zero_capacity_counterexample:
  "fst (memb_alloc (init_state 0 zero_mem)) = None \<and>
   list_tail (neighbors_list (init_state 0 zero_mem)) = None \<and>
   broadcast_recv (init_state 0 zero_mem) 1 10 = Some (Inl NullDereference)"
  by (simp add: broadcast_recv_def init_state_def memb_alloc_def list_tail_def)

text \<open>
  C8 as amended: with \<open>MAX_NEIGHBORS\<close> set to zero no call is rejected; every call
  on the empty table, for every sender and signal quality, takes the branch of the
  failed allocation and reads through the \<open>NULL\<close> that \<open>list_tail\<close> returns, and so
  does the first call of every sequence of packets.
\<close>

theorem zero_capacity_null_dereference:
  "broadcast_recv (init_state 0 mem0) a q = Some (Inl NullDereference) \<and>
   observe_all (init_state 0 mem0) ((a, q) # obs) = Some (Inl NullDereference)"
  by (simp add: broadcast_recv_def init_state_def memb_alloc_def list_tail_def)

section \<open>The eviction branch is safe\<close>

text \<open>
  C10: starting from the empty table with a pool of at least one block, in every state
  reached the number of blocks in use equals the length of the list; whenever
  \<open>memb_alloc\<close> fails the list holds exactly as many nodes as the pool has blocks,
  \<open>list_tail\<close> returns a node rather than \<open>NULL\<close>, and after that node is removed
  and freed the second \<open>memb_alloc\<close> succeeds; so \<open>broadcast_recv\<close> returns normally
  for every packet, without reading or writing through \<open>NULL\<close>.
\<close>

theorem eviction_branch_safe:
  "0 < num \<Longrightarrow>
     \<exists>s. observe_all (init_state num mem0) obs = Some (Inr s)
       \<and> length (filter (\<lambda>c. c \<noteq> 0) (memb_count s)) = length (neighbors_list s)
       \<and> (fst (memb_alloc s) = None \<longrightarrow>
            length (neighbors_list s) = num
            \<and> (\<exists>t. list_tail (neighbors_list s) = Some t
                 \<and> fst (memb_alloc
                          (memb_free (s\<lparr>neighbors_list := list_remove (neighbors_list s) t\<rparr>) t))
                     \<noteq> None))
       \<and> (\<forall>a q. \<exists>r. broadcast_recv s a q = Some (Inr r))"
proof -
  assume num: "0 < num"
  from reachable_table_inv [OF this, of mem0 obs]
  obtain s where s: "observe_all (init_state num mem0) obs = Some (Inr s)" "table_inv num s"
    by blast
  from s(2) have pool: "pool_inv num s" by (simp add: table_inv_def)
  have "length (neighbors_list s) = num
        \<and> (\<exists>t. list_tail (neighbors_list s) = Some t
             \<and> fst (memb_alloc
                      (memb_free (s\<lparr>neighbors_list := list_remove (neighbors_list s) t\<rparr>) t))
                 \<noteq> None)"
    if "fst (memb_alloc s) = None"
  proof -
    from that pool have full: "length (neighbors_list s) = num"
      by (simp add: memb_alloc_None)
    with num have ne: "neighbors_list s \<noteq> []" by auto
    then have tl: "list_tail (neighbors_list s) = Some (last (neighbors_list s))"
      by (simp add: list_tail_def split: list.splits)
    note ev = pool_inv_evict [OF pool ne]
    from ev(1,4) have "fst (memb_alloc (memb_free
        (s\<lparr>neighbors_list := list_remove (neighbors_list s) (last (neighbors_list s))\<rparr>)
        (last (neighbors_list s)))) \<noteq> None"
      by (simp add: memb_alloc_None)
    with full tl show ?thesis by blast
  qed
  moreover have "\<exists>r. broadcast_recv s a q = Some (Inr r)" for a q
    using recv_table_inv [OF s(2) num, of a q] by blast
  ultimately show ?thesis
    using s(1) pool_occupancy [OF pool] by (intro exI [of _ s]) simp
qed

theorem eviction_branch_safe_witness:
  "0 < MAX_NEIGHBORS \<and>
   (\<exists>s. observe_all (init_state MAX_NEIGHBORS zero_mem)
          [(1, 10), (2, 20), (3, 30), (4, 40), (5, 50), (6, 60)] = Some (Inr s)
       \<and> length (filter (\<lambda>c. c \<noteq> 0) (memb_count s)) = length (neighbors_list s)
       \<and> (fst (memb_alloc s) = None \<longrightarrow>
            length (neighbors_list s) = MAX_NEIGHBORS
            \<and> (\<exists>t. list_tail (neighbors_list s) = Some t
                 \<and> fst (memb_alloc
                          (memb_free (s\<lparr>neighbors_list := list_remove (neighbors_list s) t\<rparr>) t))
                     \<noteq> None))
       \<and> (\<forall>a q. \<exists>r. broadcast_recv s a q = Some (Inr r)))"
proof -
  have h: "0 < MAX_NEIGHBORS" by (simp add: MAX_NEIGHBORS_def)
  from eviction_branch_safe [OF h] h show ?thesis by blast
qed

section \<open>Termination of the sort\<close>

text \<open>
  C9: for every list of neighbour records (a sequence of distinct nodes),
  \<open>sort_list_based_on_rssi\<close> terminates: the loop that pushes the larger node of an
  adjacent pair to the head and restarts the scan cannot run forever, and the function
  returns a state.
\<close>

theorem sort_list_based_on_rssi_terminates:
  "distinct (neighbors_list s) \<Longrightarrow> \<exists>s'. sort_list_based_on_rssi s = Some (Inr s')"
  using sort_list_based_on_rssi_correct [of s] by blast

theorem sort_list_based_on_rssi_terminates_witness:
  "distinct (neighbors_list tie_state) \<and> (\<exists>s'. sort_list_based_on_rssi tie_state = Some (Inr s'))"
proof -
  have d: "distinct (neighbors_list tie_state)"
    by (simp add: tie_state_def)
  from sort_list_based_on_rssi_terminates [OF d] d show ?thesis by simp
qed

end
